theory Spec2Isabelle
  imports
    Main
    "HOL-Library.Multiset"
    "HOL-Library.Char_ord"
    "HOL-Library.List_Lexorder"
    "HOL-Library.Option_ord"
begin

section \<open>Python values used by the error handler module\<close>

text \<open>
  The module is Python 2. A field that holds either a byte string or \<open>None\<close> is a
  \<open>string option\<close>. With \<open>Char_ord\<close>, \<open>List_Lexorder\<close> and \<open>Option_ord\<close> the order on
  \<open>string option\<close> is the one Python 2 uses when it sorts such values: \<open>None\<close> is below
  every string, and strings compare byte by byte, a proper prefix being smaller.
\<close>

abbreviation TAB :: char where "TAB \<equiv> CHR 0x09"
abbreviation SQ :: char where "SQ \<equiv> CHR 0x27"

text \<open>\<open>'%s' % v\<close> for a string or \<open>None\<close>.\<close>

fun py_str :: "string option \<Rightarrow> string" where
  "py_str None = ''None''"
| "py_str (Some s) = s"

text \<open>\<open>'%s' % n\<close> for an integer: decimal digits, a minus sign for a negative number.\<close>

fun str_nat :: "nat \<Rightarrow> string" where
  "str_nat n =
     (if n < 10 then [''0123456789'' ! n]
      else str_nat (n div 10) @ [''0123456789'' ! (n mod 10)])"

definition str_int :: "int \<Rightarrow> string" where
  "str_int i = (if i < 0 then CHR ''-'' # str_nat (nat (- i)) else str_nat (nat i))"

section \<open>Exceptions and dictionaries\<close>

datatype error = KeyError

definition ebind :: "error + 'a \<Rightarrow> ('a \<Rightarrow> error + 'b) \<Rightarrow> error + 'b" where
  "ebind m f = (case m of Inl e \<Rightarrow> Inl e | Inr a \<Rightarrow> f a)"

text \<open>
  A \<open>dict\<close> that the module iterates over is an association list with distinct keys,
  kept in the order in which the keys were first stored. \<open>d[k] = v\<close> overwrites in place
  or stores a new key at the end; \<open>d[k]\<close> raises \<open>KeyError\<close> for a missing key.
\<close>

type_synonym ('k, 'v) dict = "('k \<times> 'v) list"

definition has_key :: "('k, 'v) dict \<Rightarrow> 'k \<Rightarrow> bool" where
  "has_key d k = (k \<in> set (map fst d))"

definition getitem :: "('k, 'v) dict \<Rightarrow> 'k \<Rightarrow> error + 'v" where
  "getitem d k = (case map_of d k of None \<Rightarrow> Inl KeyError | Some v \<Rightarrow> Inr v)"

fun setitem :: "('k, 'v) dict \<Rightarrow> 'k \<Rightarrow> 'v \<Rightarrow> ('k, 'v) dict" where
  "setitem [] k v = [(k, v)]"
| "setitem ((k', v') # d) k v = (if k' = k then (k, v) # d else (k', v') # setitem d k v)"

text \<open>
  A Python 2 \<open>dict\<close> is a hash table: \<open>items()\<close> walks its slots, so the order in which
  the keys come out is fixed by the interpreter and not by the program. The model takes
  that order as a parameter \<open>io\<close>, a function from the keys in storing order to the keys
  in iteration order. Every interpreter returns each key once: \<open>iteration_order io\<close>.
\<close>

definition dict_items :: "('k list \<Rightarrow> 'k list) \<Rightarrow> ('k, 'v) dict \<Rightarrow> ('k \<times> 'v) list" where
  "dict_items io d = List.map_filter (\<lambda>k. map_option (Pair k) (map_of d k)) (io (map fst d))"

definition iteration_order :: "('k list \<Rightarrow> 'k list) \<Rightarrow> bool" where
  "iteration_order io = (\<forall>ks. distinct ks \<longrightarrow> mset (io ks) = mset ks)"

text \<open>The data dictionary of one migrated row is only probed by key: a map.\<close>

definition map_has_key :: "('k \<rightharpoonup> 'v) \<Rightarrow> 'k \<Rightarrow> bool" where
  "map_has_key m k = (m k \<noteq> None)"

definition map_getitem :: "('k \<rightharpoonup> 'v) \<Rightarrow> 'k \<Rightarrow> error + 'v" where
  "map_getitem m k = (case m k of None \<Rightarrow> Inl KeyError | Some v \<Rightarrow> Inr v)"

section \<open>ValidationError and ConsistencyError\<close>

text \<open>
  The two record classes are duck-typed members of one collection class; both have
  \<open>target\<close>, \<open>stage\<close> and \<open>suffix\<close>, and \<open>__str__\<close> dispatches on the class. The
  stage of a record is a string (\<open>__str__\<close> of a validation error appends \<open>"_"\<close> to it);
  target, suffix, value and notice may be \<open>None\<close>.
\<close>

datatype error_record =
    ValidationError
      (target: "string option") (stage: string) (suffix: "string option")
      (parameter: string) (val: "string option") (notice: "string option")
  | ConsistencyError
      (target: "string option") (stage: string) (suffix: "string option")

fun str :: "error_record \<Rightarrow> string" where
  "str (ValidationError t st su p v n) =
     ''Error: '' @ py_str n @ '', Value of '' @ p @ '' = '' @ [SQ] @ py_str v @ [SQ]
       @ '' for '' @ (st @ ''_'') @ ''id = '' @ [SQ] @ py_str su @ [SQ] @ ''\<newline>''"
| "str (ConsistencyError t st su) = ''Missing suffix: '' @ py_str su @ ''\<newline>''"

section \<open>ErrorCollection\<close>

text \<open>
  \<open>itertools.groupby\<close>: maximal runs of neighbours whose key equals the key of the first
  element of the run, each run paired with that key.
\<close>

function groupby :: "('a \<Rightarrow> 'k) \<Rightarrow> 'a list \<Rightarrow> ('k \<times> 'a list) list" where
  "groupby key [] = []"
| "groupby key (x # xs) =
     (key x, x # takeWhile (\<lambda>y. key y = key x) xs)
       # groupby key (dropWhile (\<lambda>y. key y = key x) xs)"
  by pat_completeness auto
termination
  by (relation "measure (\<lambda>(key, xs). length xs)")
    (simp_all add: length_dropWhile_le le_imp_less_Suc)

text \<open>
  \<open>__group_errors_t_s\<close>. \<open>sorted(..., key=...)\<close> is a stable sort, as \<open>sort_key\<close> is.
  The inner dictionary stored under \<open>k\<close> is filled before it is stored here; the source
  stores it empty and fills it in place, which leaves the same dictionary under \<open>k\<close>.
\<close>

definition group_errors_t_s ::
  "error_record list \<Rightarrow> (string option, (string, error_record list) dict) dict" where
  "group_errors_t_s self =
     foldl (\<lambda>error_dict (k, v).
              setitem error_dict k
                (foldl (\<lambda>inner (s, e). setitem inner s e) []
                   (groupby stage (sort_key stage v))))
       [] (groupby target (sort_key target self))"

text \<open>\<open>__group_errors_s\<close>.\<close>

definition group_errors_s :: "error_record list \<Rightarrow> (string, error_record list) dict" where
  "group_errors_s self =
     foldl (\<lambda>error_dict (k, v). setitem error_dict k v) []
       (groupby stage (sort_key stage self))"

text \<open>
  \<open>get_error_msg\<close>. The outer loop runs over \<open>sorted(error_dict.keys())\<close>: the keys are
  distinct, so the sorted list does not depend on the order \<open>keys()\<close> gave them in. The
  inner loop runs over \<open>error_dict[k].items()\<close>, in the dictionary's iteration order.
\<close>

definition get_error_msg :: "(string list \<Rightarrow> string list) \<Rightarrow> error_record list \<Rightarrow> error + string" where
  "get_error_msg io self =
     (let error_dict = group_errors_t_s self;
          error_dict_keys = map fst error_dict
      in foldl (\<lambda>acc k.
           ebind acc (\<lambda>message.
           ebind (getitem error_dict k) (\<lambda>inner.
             Inr (foldl (\<lambda>message (stage, items).
                    foldl (\<lambda>message item. message @ [TAB, TAB] @ str item)
                      (message @ [TAB] @ ''Stage: '' @ stage @ [TAB] @ ''(''
                         @ str_nat (length items) @ '' error(s)).\<newline>'')
                      items)
                  (message @ ''Target: '' @ py_str k @ ''\<newline>'')
                  (dict_items io inner)))))
         (Inr '''') (sort error_dict_keys))"

text \<open>\<open>get_error_count_summary\<close>.\<close>

definition get_error_count_summary :: "(string list \<Rightarrow> string list) \<Rightarrow> error_record list \<Rightarrow> string" where
  "get_error_count_summary io self =
     (let error_dict = group_errors_s self;
          (message, grand_total) =
            foldl (\<lambda>(message, grand_total) (k, v).
                     (let errors_count = length v
                      in (message @ [TAB] @ str_nat errors_count @ '' in '' @ k @ ''\<newline>'',
                          grand_total + errors_count)))
              ('''', 0) (dict_items io error_dict)
      in str_nat grand_total @ '' error(s) occured during this run.\<newline>'' @ message)"

text \<open>\<open>get_error_count_msg\<close>.\<close>

definition get_error_count_msg :: "(string list \<Rightarrow> string list) \<Rightarrow> error_record list \<Rightarrow> error + string" where
  "get_error_count_msg io self =
     (let error_dict = group_errors_t_s self;
          error_dict_keys = map fst error_dict
      in ebind
           (foldl (\<lambda>acc k.
              ebind acc (\<lambda>(message, grand_total).
              ebind (getitem error_dict k) (\<lambda>inner.
                (let (detailed_message, total) =
                       foldl (\<lambda>(detailed_message, total) (stage, items).
                                (detailed_message @ [TAB] @ str_nat (length items) @ '' in ''
                                   @ stage @ ''\<newline>'',
                                 total + length items))
                         ('''', 0) (dict_items io inner)
                 in Inr (message @ ''Target: '' @ py_str k @ [TAB] @ ''('' @ str_nat total
                           @ '' error(s))\<newline>'' @ detailed_message,
                         grand_total + total)))))
            (Inr ('''', 0)) (sort error_dict_keys))
           (\<lambda>(message, grand_total).
              Inr (str_nat grand_total @ '' error(s) occured during this run.\<newline> '' @ message)))"

section \<open>RecordCounter and DatabaseErrorCollection\<close>

text \<open>\<open>RecordCounter.increment\<close>; \<open>self[k] += 1\<close> reads \<open>self[k]\<close> and stores the sum.\<close>

definition increment :: "string \<Rightarrow> (string, int) dict \<Rightarrow> error + (string, int) dict" where
  "increment counter_name self =
     (if has_key self counter_name
      then ebind (getitem self counter_name) (\<lambda>c. Inr (setitem self counter_name (c + 1)))
      else Inr (setitem self counter_name 1))"

text \<open>\<open>DatabaseErrorCollection.get_error_msg\<close> and \<open>get_error_count_msg\<close>.\<close>

definition db_get_error_msg :: "(string list \<Rightarrow> string list) \<Rightarrow> (string, int) dict \<Rightarrow> string" where
  "db_get_error_msg io self =
     (if self \<noteq> []
      then foldl (\<lambda>message (k, v).
                    message @ ''In '' @ str_int v @ '' recod(s):\<newline>'' @ k @ ''\<newline>'')
             ''Following database errors occured during the run:\<newline>'' (dict_items io self)
      else ''There were no database errors during this run.'')"

definition db_get_error_count_msg :: "(string, int) dict \<Rightarrow> string" where
  "db_get_error_count_msg self = str_nat (length self) @ '' error(s) occured during run.\<newline>''"

section \<open>ErrorHandler\<close>

text \<open>
  The handler owns two error collections, the database error counter, the per-stage
  record counters and the logger. The logger is the list of messages handed to it; the
  log file and its folder are outside the module.
\<close>

record ErrorHandler =
  validation_error_collection :: "error_record list"
  db_error_collection :: "(string, int) dict"
  consistency_error_collection :: "error_record list"
  r_counter :: "(string, (string, int) dict) dict"
  logger :: "string list"

definition init :: ErrorHandler where
  "init =
     \<lparr> validation_error_collection = [], db_error_collection = [],
       consistency_error_collection = [], r_counter = [],
       logger = [''Logger initiated.''] \<rparr>"

definition attach_db_error :: "string \<Rightarrow> ErrorHandler \<Rightarrow> error + ErrorHandler" where
  "attach_db_error text self =
     (let self = self\<lparr>logger := logger self @ [text]\<rparr>
      in ebind (increment text (db_error_collection self)) (\<lambda>c.
           Inr (self\<lparr>db_error_collection := c\<rparr>)))"

definition attach_consistency_error ::
  "string option \<Rightarrow> string \<Rightarrow> string option \<Rightarrow> ErrorHandler \<Rightarrow> error + ErrorHandler" where
  "attach_consistency_error target_arg stage_arg id_arg self =
     Inr (self\<lparr>consistency_error_collection :=
                 consistency_error_collection self
                   @ [ConsistencyError target_arg stage_arg id_arg]\<rparr>)"

definition attach_validation_error ::
  "string \<Rightarrow> string \<Rightarrow> (string \<rightharpoonup> string option) \<Rightarrow> string option \<Rightarrow> ErrorHandler
     \<Rightarrow> error + ErrorHandler" where
  "attach_validation_error stage_arg param data_dict notice_arg self =
     ebind (if map_has_key data_dict ''protein_target_id''
            then map_getitem data_dict ''protein_target_id'' else Inr None) (\<lambda>target.
     ebind (Inr (if stage_arg = ''protocol'' then Some ''Protocol'' else target)) (\<lambda>target.
     ebind (if map_has_key data_dict (stage_arg @ ''_id'')
            then map_getitem data_dict (stage_arg @ ''_id'') else Inr None) (\<lambda>suffix.
     ebind (if map_has_key data_dict param
            then map_getitem data_dict param else Inr None) (\<lambda>value.
       Inr (self\<lparr>validation_error_collection :=
                   validation_error_collection self
                     @ [ValidationError target stage_arg suffix param value notice_arg]\<rparr>)))))"

text \<open>The reporting methods delegate to the collections.\<close>

definition get_validation_error_msg :: "(string list \<Rightarrow> string list) \<Rightarrow> ErrorHandler \<Rightarrow> error + string" where
  "get_validation_error_msg io self = get_error_msg io (validation_error_collection self)"

definition get_consistency_error_msg :: "(string list \<Rightarrow> string list) \<Rightarrow> ErrorHandler \<Rightarrow> error + string" where
  "get_consistency_error_msg io self = get_error_msg io (consistency_error_collection self)"

definition get_db_error_msg :: "(string list \<Rightarrow> string list) \<Rightarrow> ErrorHandler \<Rightarrow> string" where
  "get_db_error_msg io self = db_get_error_msg io (db_error_collection self)"

definition get_validation_errors_statistics_msg ::
  "(string list \<Rightarrow> string list) \<Rightarrow> ErrorHandler \<Rightarrow> error + string" where
  "get_validation_errors_statistics_msg io self =
     get_error_count_msg io (validation_error_collection self)"

definition get_database_errors_statistics_msg :: "ErrorHandler \<Rightarrow> string" where
  "get_database_errors_statistics_msg self = db_get_error_count_msg (db_error_collection self)"

text \<open>
  The counter methods. \<open>self._r_counter[stage]\<close> is the counter object stored under the
  stage; changing it in place is storing the changed counter under the same key.
\<close>

definition ensure_stage :: "string \<Rightarrow> ErrorHandler \<Rightarrow> ErrorHandler" where
  "ensure_stage stage_arg self =
     (if \<not> has_key (r_counter self) stage_arg
      then self\<lparr>r_counter := setitem (r_counter self) stage_arg []\<rparr> else self)"

definition increment_updated :: "string \<Rightarrow> ErrorHandler \<Rightarrow> error + ErrorHandler" where
  "increment_updated stage_arg self =
     (let self = ensure_stage stage_arg self
      in ebind (getitem (r_counter self) stage_arg) (\<lambda>rc.
         ebind (increment ''updated'' rc) (\<lambda>rc.
           Inr (self\<lparr>r_counter := setitem (r_counter self) stage_arg rc\<rparr>))))"

definition increment_inserted :: "string \<Rightarrow> ErrorHandler \<Rightarrow> error + ErrorHandler" where
  "increment_inserted stage_arg self =
     (let self = ensure_stage stage_arg self
      in ebind (getitem (r_counter self) stage_arg) (\<lambda>rc.
         ebind (increment ''inserted'' rc) (\<lambda>rc.
           Inr (self\<lparr>r_counter := setitem (r_counter self) stage_arg rc\<rparr>))))"

definition set_lab_db_count :: "string \<Rightarrow> int \<Rightarrow> ErrorHandler \<Rightarrow> error + ErrorHandler" where
  "set_lab_db_count stage_arg value_arg self =
     (let self = ensure_stage stage_arg self
      in ebind (getitem (r_counter self) stage_arg) (\<lambda>rc.
           Inr (self\<lparr>r_counter := setitem (r_counter self) stage_arg (setitem rc ''lab_db'' value_arg)\<rparr>)))"

definition set_center_db_count :: "string \<Rightarrow> int \<Rightarrow> ErrorHandler \<Rightarrow> error + ErrorHandler" where
  "set_center_db_count stage_arg value_arg self =
     (let self = ensure_stage stage_arg self
      in ebind (getitem (r_counter self) stage_arg) (\<lambda>rc.
           Inr (self\<lparr>r_counter := setitem (r_counter self) stage_arg (setitem rc ''center_db'' value_arg)\<rparr>)))"

definition get_count_values_msg :: "(string list \<Rightarrow> string list) \<Rightarrow> ErrorHandler \<Rightarrow> string" where
  "get_count_values_msg io self =
     foldl (\<lambda>message (stage, rc).
              foldl (\<lambda>message (k, v).
                       message @ [TAB] @ k @ '' records: '' @ str_int v @ ''\<newline>'')
                (message @ stage @ '':\<newline>'') (dict_items io rc))
       '''' (dict_items io (r_counter self))"

text \<open>A run of calls on the handler stops at the first exception.\<close>

fun run :: "('s \<Rightarrow> error + 's) list \<Rightarrow> 's \<Rightarrow> error + 's" where
  "run [] s = Inr s"
| "run (c # cs) s = ebind (c s) (run cs)"

declare str_nat.simps [simp del]

section \<open>The grouping and the reports in closed form\<close>

text \<open>
  The targets of a collection in ascending order, the stages under one target in
  ascending order, and the records of one (target, stage) pair in the order in which
  they were appended. \<open>report_sections\<close> lists, for every target, its stage buckets in
  the order the inner dictionary is iterated in; \<open>render_report\<close> is the text of such a
  list of sections.
\<close>

definition targets_of :: "error_record list \<Rightarrow> string option list" where
  "targets_of errs = sort (remdups (map target errs))"

definition stages_of :: "string option \<Rightarrow> error_record list \<Rightarrow> string list" where
  "stages_of t errs = sort (remdups (map stage (filter (\<lambda>e. target e = t) errs)))"

definition bucket_of :: "string option \<Rightarrow> string \<Rightarrow> error_record list \<Rightarrow> error_record list" where
  "bucket_of t s errs = filter (\<lambda>e. target e = t \<and> stage e = s) errs"

definition report_sections ::
  "(string list \<Rightarrow> string list) \<Rightarrow> error_record list
     \<Rightarrow> (string option \<times> (string \<times> error_record list) list) list" where
  "report_sections io errs =
     map (\<lambda>t. (t, map (\<lambda>s. (s, bucket_of t s errs)) (io (stages_of t errs)))) (targets_of errs)"

definition render_report :: "(string option \<times> (string \<times> error_record list) list) list \<Rightarrow> string" where
  "render_report sections =
     concat (map (\<lambda>(t, buckets).
       ''Target: '' @ py_str t @ ''\<newline>''
         @ concat (map (\<lambda>(s, items).
             [TAB] @ ''Stage: '' @ s @ [TAB] @ ''('' @ str_nat (length items) @ '' error(s)).\<newline>''
               @ concat (map (\<lambda>item. [TAB, TAB] @ str item) items)) buckets)) sections)"

section \<open>Dictionaries and grouping: auxiliary facts\<close>

lemma setitem_new: "k \<notin> fst ` set d \<Longrightarrow> setitem d k v = d @ [(k, v)]"
  by (induction d) auto

lemma foldl_setitem_distinct:
  "distinct (map fst d @ map fst kvs) \<Longrightarrow>
   foldl (\<lambda>d (k, v). setitem d k (g v)) d kvs = d @ map (\<lambda>(k, v). (k, g v)) kvs"
proof (induction kvs arbitrary: d)
  case Nil
  then show ?case by simp
next
  case (Cons kv kvs)
  obtain k v where kv: "kv = (k, v)" by (cases kv)
  from Cons.prems have new: "k \<notin> fst ` set d" by (auto simp: kv)
  from Cons.prems have "distinct (map fst (d @ [(k, g v)]) @ map fst kvs)" by (auto simp: kv)
  from Cons.IH [OF this] show ?case by (simp add: kv setitem_new [OF new])
qed

lemma groupby_concat: "concat (map snd (groupby f xs)) = xs"
  by (induction f xs rule: groupby.induct) simp_all

lemma takeWhile_key: "y \<in> set (takeWhile (\<lambda>y. f y = c) xs) \<Longrightarrow> f y = c"
  by (metis (mono_tags, lifting) set_takeWhileD)

lemma groupby_Cons_mem:
  "(k, r) \<in> set (groupby f (x # xs)) \<Longrightarrow>
     (k = f x \<and> r = x # takeWhile (\<lambda>y. f y = f x) xs)
     \<or> (k, r) \<in> set (groupby f (dropWhile (\<lambda>y. f y = f x) xs))"
  by simp

lemma groupby_run:
  "(k, r) \<in> set (groupby f xs) \<Longrightarrow> r \<noteq> [] \<and> (\<forall>x\<in>set r. f x = k)"
proof (induction f xs rule: groupby.induct)
  case (1 f)
  then show ?case by simp
next
  case (2 f x xs)
  from groupby_Cons_mem [OF "2.prems"] show ?case
  proof
    assume head: "k = f x \<and> r = x # takeWhile (\<lambda>y. f y = f x) xs"
    show ?thesis
    proof (intro conjI ballI)
      show "r \<noteq> []" using head by simp
    next
      fix y assume "y \<in> set r"
      with head have "y = x \<or> y \<in> set (takeWhile (\<lambda>y. f y = f x) xs)" by simp
      then show "f y = k" using head takeWhile_key [of y f "f x" xs] by blast
    qed
  next
    assume "(k, r) \<in> set (groupby f (dropWhile (\<lambda>y. f y = f x) xs))"
    then show ?thesis by (rule "2.IH")
  qed
qed

lemma groupby_keys_subset: "fst ` set (groupby f xs) \<subseteq> f ` set xs"
proof (induction f xs rule: groupby.induct)
  case (1 f)
  then show ?case by simp
next
  case (2 f x xs)
  have "set (dropWhile (\<lambda>y. f y = f x) xs) \<subseteq> set xs" by (rule set_dropWhileD [THEN subsetI])
  with 2 show ?case by auto
qed

lemma sorted_map_dropWhile: "sorted (map f xs) \<Longrightarrow> sorted (map f (dropWhile P xs))"
proof -
  assume a: "sorted (map f xs)"
  have "map f xs = map f (takeWhile P xs) @ map f (dropWhile P xs)"
    by (simp only: map_append [symmetric] takeWhile_dropWhile_id)
  with a have "sorted (map f (takeWhile P xs) @ map f (dropWhile P xs))" by simp
  then show ?thesis by (simp only: sorted_append)
qed

lemma sorted_dropWhile_greater:
  assumes "sorted (map f (x # xs))" and "y \<in> set (dropWhile (\<lambda>y. f y = f x) xs)"
  shows "f x < f y"
proof -
  let ?d = "dropWhile (\<lambda>y. f y = f x) xs"
  from assms(2) obtain z zs where d: "?d = z # zs" by (cases ?d) auto
  have "f z \<noteq> f x" using hd_dropWhile [of "\<lambda>y. f y = f x" xs] d by auto
  moreover have "z \<in> set xs" using set_dropWhileD [of z "\<lambda>y. f y = f x" xs] d by simp
  ultimately have lt: "f x < f z" using assms(1) by auto
  have "sorted (map f (z # zs))"
    using sorted_map_dropWhile [of f xs "\<lambda>y. f y = f x"] assms(1) d by simp
  with assms(2) d have "f z \<le> f y" by auto
  with lt show ?thesis by simp
qed

lemma groupby_keys_strict:
  "sorted (map f xs) \<Longrightarrow> sorted_wrt (<) (map fst (groupby f xs))"
proof (induction f xs rule: groupby.induct)
  case (1 f)
  then show ?case by simp
next
  case (2 f x xs)
  let ?d = "dropWhile (\<lambda>y. f y = f x) xs"
  have sd: "sorted (map f ?d)"
    using "2.prems" sorted_map_dropWhile [of f xs] by simp
  have "\<forall>k \<in> fst ` set (groupby f ?d). f x < k"
    using groupby_keys_subset [of f ?d] sorted_dropWhile_greater [OF "2.prems"] by auto
  with "2.IH" [OF sd] show ?case by auto
qed

lemma groupby_keys_set: "fst ` set (groupby f xs) = f ` set xs"
proof
  show "fst ` set (groupby f xs) \<subseteq> f ` set xs" by (rule groupby_keys_subset)
next
  show "f ` set xs \<subseteq> fst ` set (groupby f xs)"
  proof
    fix k assume "k \<in> f ` set xs"
    then obtain x where x: "x \<in> set xs" and k: "k = f x" by blast
    from x have "x \<in> set (concat (map snd (groupby f xs)))" by (simp only: groupby_concat)
    then obtain k' r where kr: "(k', r) \<in> set (groupby f xs)" and xr: "x \<in> set r" by auto
    from groupby_run [OF kr] xr have "f x = k'" by blast
    with kr k show "k \<in> fst ` set (groupby f xs)" by force
  qed
qed

lemma run_is_filter:
  assumes "distinct (map fst kvs)"
    and "\<forall>(k, r)\<in>set kvs. \<forall>x\<in>set r. f x = k"
    and "(k, r) \<in> set kvs"
  shows "filter (\<lambda>x. f x = k) (concat (map snd kvs)) = r"
  using assms
proof (induction kvs)
  case Nil
  then show ?case by simp
next
  case (Cons kv kvs)
  obtain k' r' where kv: "kv = (k', r')" by (cases kv)
  from Cons.prems(2) have r': "\<forall>x\<in>set r'. f x = k'" by (simp add: kv)
  from Cons.prems(2) have rest: "\<forall>(k, r)\<in>set kvs. \<forall>x\<in>set r. f x = k" by simp
  from Cons.prems(1) have dist: "distinct (map fst kvs)" and new: "k' \<notin> fst ` set kvs"
    by (simp_all add: kv)
  show ?case
  proof (cases "(k, r) = (k', r')")
    case True
    then have k: "k = k'" and r: "r = r'" by simp_all
    have "filter (\<lambda>x. f x = k') r' = r'" using r' by (rule filter_True)
    moreover have "filter (\<lambda>x. f x = k') (concat (map snd kvs)) = []"
    proof -
      have "\<forall>x\<in>set (concat (map snd kvs)). f x \<noteq> k'"
      proof
        fix x assume "x \<in> set (concat (map snd kvs))"
        then obtain k2 r2 where m: "(k2, r2) \<in> set kvs" and x: "x \<in> set r2" by auto
        from rest m x have "f x = k2" by blast
        moreover from m new have "k2 \<noteq> k'" by force
        ultimately show "f x \<noteq> k'" by blast
      qed
      then show ?thesis by (rule filter_False)
    qed
    ultimately show ?thesis by (simp add: kv k r)
  next
    case False
    with Cons.prems(3) have mem: "(k, r) \<in> set kvs" by (auto simp: kv)
    with new have "k \<noteq> k'" by force
    with r' have "\<forall>x\<in>set r'. \<not> f x = k" by blast
    then have "filter (\<lambda>x. f x = k) r' = []" by (rule filter_False)
    with Cons.IH [OF dist rest mem] show ?thesis by (simp add: kv)
  qed
qed

lemma sorted_wrt_less_distinct: "sorted_wrt (<) (ks :: 'a::linorder list) \<Longrightarrow> distinct ks \<and> sorted ks"
  by (simp add: strict_sorted_iff)

lemma groupby_sorted_bucket:
  assumes "sorted (map f xs)" and "(k, r) \<in> set (groupby f xs)"
  shows "r = filter (\<lambda>x. f x = k) xs"
proof -
  have d: "distinct (map fst (groupby f xs))"
    using groupby_keys_strict [OF assms(1)] sorted_wrt_less_distinct by blast
  have "\<forall>(k, r)\<in>set (groupby f xs). \<forall>x\<in>set r. f x = k"
    using groupby_run by fast
  from run_is_filter [OF d this assms(2)] show ?thesis by (simp only: groupby_concat)
qed

lemma groupby_sort_key:
  fixes f :: "'a \<Rightarrow> 'k::linorder"
  shows "groupby f (sort_key f xs)
    = map (\<lambda>k. (k, filter (\<lambda>x. f x = k) xs)) (sort (remdups (map f xs)))"
proof -
  let ?G = "groupby f (sort_key f xs)"
  have s: "sorted (map f (sort_key f xs))" by simp
  have keys: "map fst ?G = sort (remdups (map f xs))"
  proof (rule sorted_distinct_set_unique)
    show "sorted (map fst ?G)" "distinct (map fst ?G)"
      using groupby_keys_strict [OF s] sorted_wrt_less_distinct by blast+
    show "sorted (sort (remdups (map f xs)))" "distinct (sort (remdups (map f xs)))" by simp_all
    show "set (map fst ?G) = set (sort (remdups (map f xs)))"
      using groupby_keys_set [of f "sort_key f xs"] by simp
  qed
  have "?G = map (\<lambda>k. (k, filter (\<lambda>x. f x = k) xs)) (map fst ?G)"
  proof -
    have "map (\<lambda>kr. (fst kr, filter (\<lambda>x. f x = fst kr) xs)) ?G = ?G"
    proof (rule map_idI)
      fix kr assume m: "kr \<in> set ?G"
      obtain k r where kr: "kr = (k, r)" by (cases kr)
      from groupby_sorted_bucket [OF s] m kr
      have "r = filter (\<lambda>x. f x = k) (sort_key f xs)" by blast
      then have "r = filter (\<lambda>x. f x = k) xs" by (simp only: sort_key_stable)
      then show "(fst kr, filter (\<lambda>x. f x = fst kr) xs) = kr" by (simp add: kr)
    qed
    then show ?thesis by (simp add: comp_def)
  qed
  with keys show ?thesis by simp
qed

lemma foldl_setitem_id:
  "distinct (map fst kvs) \<Longrightarrow> foldl (\<lambda>d (k, v). setitem d k v) [] kvs = kvs"
  using foldl_setitem_distinct [of "[]" kvs "\<lambda>v. v"] by simp

lemma inner_dict_eq:
  "foldl (\<lambda>inner (s, e). setitem inner s e) [] (groupby stage (sort_key stage v))
     = map (\<lambda>s. (s, filter (\<lambda>e. stage e = s) v)) (sort (remdups (map stage v)))"
proof -
  have "distinct (map fst (map (\<lambda>s. (s, filter (\<lambda>e. stage e = s) v)) (sort (remdups (map stage v)))))"
    by (simp add: comp_def)
  from foldl_setitem_id [OF this] show ?thesis by (simp only: groupby_sort_key)
qed

lemma group_errors_t_s_eq:
  "group_errors_t_s errs
     = map (\<lambda>t. (t, map (\<lambda>s. (s, bucket_of t s errs)) (stages_of t errs))) (targets_of errs)"
proof -
  let ?g = "\<lambda>v. map (\<lambda>s. (s, filter (\<lambda>e. stage e = s) v)) (sort (remdups (map stage v)))"
  let ?G = "map (\<lambda>k. (k, filter (\<lambda>x. target x = k) errs)) (targets_of errs)"
  have d: "distinct (map fst [] @ map fst ?G)" by (simp add: comp_def targets_of_def)
  have "group_errors_t_s errs
      = foldl (\<lambda>d (k, v). setitem d k (?g v)) [] (groupby target (sort_key target errs))"
    by (simp only: group_errors_t_s_def inner_dict_eq)
  also have "\<dots> = foldl (\<lambda>d (k, v). setitem d k (?g v)) [] ?G"
    by (simp only: groupby_sort_key targets_of_def)
  also have "\<dots> = [] @ map (\<lambda>(k, v). (k, ?g v)) ?G"
    by (rule foldl_setitem_distinct [OF d])
  finally show ?thesis
    by (simp add: comp_def stages_of_def bucket_of_def)
qed

lemma map_filter_Some:
  "(\<And>x. x \<in> set xs \<Longrightarrow> F x = Some (h x)) \<Longrightarrow> List.map_filter F xs = map h xs"
  by (induction xs) (simp_all add: map_filter_simps)

lemma map_of_keyed: "k \<in> set ks \<Longrightarrow> map_of (map (\<lambda>k. (k, g k)) ks) k = Some (g k)"
  by (induction ks) auto

lemma iteration_order_set: "iteration_order io \<Longrightarrow> distinct ks \<Longrightarrow> set (io ks) = set ks"
  unfolding iteration_order_def by (metis set_mset_mset)

lemma iteration_order_distinct: "iteration_order io \<Longrightarrow> distinct ks \<Longrightarrow> distinct (io ks)"
  unfolding iteration_order_def by (metis mset_eq_imp_distinct_iff)

lemma dict_items_keyed:
  assumes "iteration_order io" and "distinct ks"
  shows "dict_items io (map (\<lambda>k. (k, g k)) ks) = map (\<lambda>k. (k, g k)) (io ks)"
proof -
  have keys: "map fst (map (\<lambda>k. (k, g k)) ks) = ks" by (simp add: comp_def)
  show ?thesis
    unfolding dict_items_def keys
  proof (rule map_filter_Some)
    fix k assume "k \<in> set (io ks)"
    then have "k \<in> set ks" using iteration_order_set [OF assms] by simp
    then show "map_option (Pair k) (map_of (map (\<lambda>k. (k, g k)) ks) k) = Some (k, g k)"
      by (simp add: map_of_keyed)
  qed
qed

lemma getitem_keyed: "k \<in> set ks \<Longrightarrow> getitem (map (\<lambda>k. (k, g k)) ks) k = Inr (g k)"
  by (simp add: getitem_def map_of_keyed)

lemma foldl_append_concat: "foldl (\<lambda>m x. m @ h x) m xs = m @ concat (map h xs)"
  by (induction xs arbitrary: m) simp_all

lemma foldl_getitem:
  assumes "\<And>k. k \<in> set ks \<Longrightarrow> getitem d k = Inr (g k)"
  shows "foldl (\<lambda>acc k. ebind acc (\<lambda>m. ebind (getitem d k) (\<lambda>inner. Inr (body m k inner)))) (Inr m) ks
     = Inr (foldl (\<lambda>m k. body m k (g k)) m ks)"
  using assms by (induction ks arbitrary: m) (simp_all add: ebind_def)

lemma foldl_append_concat_prod:
  "foldl (\<lambda>m (a, b). m @ h a b) m xs = m @ concat (map (\<lambda>(a, b). h a b) xs)"
  by (induction xs arbitrary: m) (simp_all add: split_def)

lemma targets_of_sorted: "sort (targets_of errs) = targets_of errs"
  by (simp add: targets_of_def sorted_sort_id)

lemma stages_of_distinct: "distinct (stages_of t errs)"
  by (simp add: stages_of_def)

lemma targets_of_distinct: "distinct (targets_of errs)"
  by (simp add: targets_of_def)

lemma get_error_msg_eq:
  assumes io: "iteration_order io"
  shows "get_error_msg io errs = Inr (render_report (report_sections io errs))"
proof -
  let ?inner = "\<lambda>t. map (\<lambda>s. (s, bucket_of t s errs)) (stages_of t errs)"
  let ?D = "map (\<lambda>t. (t, ?inner t)) (targets_of errs)"
  let ?stage_part = "\<lambda>s items.
       [TAB] @ ''Stage: '' @ s @ [TAB] @ ''('' @ str_nat (length items) @ '' error(s)).\<newline>''
         @ concat (map (\<lambda>item. [TAB, TAB] @ str item) items)"
  let ?body = "\<lambda>message k inner.
       foldl (\<lambda>message (stage, items).
                foldl (\<lambda>message item. message @ [TAB, TAB] @ str item)
                  (message @ [TAB] @ ''Stage: '' @ stage @ [TAB] @ ''(''
                     @ str_nat (length items) @ '' error(s)).\<newline>'')
                  items)
         (message @ ''Target: '' @ py_str k @ ''\<newline>'')
         (dict_items io inner)"
  have keys: "sort (map fst ?D) = targets_of errs"
    by (simp add: comp_def targets_of_sorted)
  have get: "\<And>k. k \<in> set (targets_of errs) \<Longrightarrow> getitem ?D k = Inr (?inner k)"
    by (rule getitem_keyed)
  have body: "?body m k (?inner k)
      = m @ ''Target: '' @ py_str k @ ''\<newline>''
          @ concat (map (\<lambda>(s, items). ?stage_part s items)
              (map (\<lambda>s. (s, bucket_of k s errs)) (io (stages_of k errs))))" for m k
    by (simp only: dict_items_keyed [OF io stages_of_distinct] foldl_append_concat
        append_assoc foldl_append_concat_prod)
  have "get_error_msg io errs
      = foldl (\<lambda>acc k. ebind acc (\<lambda>m. ebind (getitem ?D k) (\<lambda>inner. Inr (?body m k inner))))
          (Inr '''') (targets_of errs)"
    by (simp only: get_error_msg_def Let_def group_errors_t_s_eq keys)
  also have "\<dots> = Inr (foldl (\<lambda>m k. ?body m k (?inner k)) '''' (targets_of errs))"
    by (rule foldl_getitem [OF get])
  also have "\<dots> = Inr (render_report (report_sections io errs))"
    by (simp only: body)
      (simp only: foldl_append_concat render_report_def report_sections_def, simp add: comp_def)
  finally show ?thesis .
qed

lemma map_of_setitem_same: "map_of (setitem d k v) k = Some v"
  by (induction d) auto

lemma keys_setitem:
  "map fst (setitem d k v) = (if k \<in> fst ` set d then map fst d else map fst d @ [k])"
  by (induction d) (auto simp: rev_image_eqI)

lemma getitem_has_key: "has_key d k \<Longrightarrow> \<exists>v. getitem d k = Inr v"
  unfolding has_key_def getitem_def
  by (cases "map_of d k") (auto simp: map_of_eq_None_iff)

lemma increment_total: "\<exists>d'. increment k d = Inr d' \<and> fst ` set d' = insert k (fst ` set d)
   \<and> (distinct (map fst d) \<longrightarrow> distinct (map fst d'))"
proof (cases "has_key d k")
  case True
  from getitem_has_key [OF True] obtain c where c: "getitem d k = Inr c" by blast
  have "map fst (setitem d k (c + 1)) = map fst d"
    using True by (simp add: keys_setitem has_key_def)
  then have "fst ` set (setitem d k (c + 1)) = fst ` set d"
      "distinct (map fst d) \<longrightarrow> distinct (map fst (setitem d k (c + 1)))"
    by (simp_all flip: set_map)
  moreover have "insert k (fst ` set d) = fst ` set d" using True by (auto simp: has_key_def)
  ultimately show ?thesis using True c by (simp add: increment_def ebind_def)
next
  case False
  have "map fst (setitem d k 1) = map fst d @ [k]"
    using False by (simp add: keys_setitem has_key_def)
  then have "set (map fst (setitem d k 1)) = insert k (fst ` set d)"
      "distinct (map fst d) \<longrightarrow> distinct (map fst (setitem d k 1))"
    using False by (simp_all add: has_key_def)
  then show ?thesis using False by (simp add: increment_def)
qed

lemma attach_db_error_eq:
  "\<exists>c. attach_db_error msg self = Inr (self\<lparr>logger := logger self @ [msg], db_error_collection := c\<rparr>)
     \<and> fst ` set c = insert msg (fst ` set (db_error_collection self))
     \<and> (distinct (map fst (db_error_collection self)) \<longrightarrow> distinct (map fst c))"
  using increment_total [of msg "db_error_collection self"]
  by (auto simp: attach_db_error_def ebind_def Let_def)

lemma run_attach_db_error:
  "distinct (map fst (db_error_collection h0)) \<Longrightarrow>
   \<exists>h. run (map attach_db_error texts) h0 = Inr h
     \<and> fst ` set (db_error_collection h) = fst ` set (db_error_collection h0) \<union> set texts
     \<and> distinct (map fst (db_error_collection h))"
proof (induction texts arbitrary: h0)
  case Nil
  then show ?case by simp
next
  case (Cons t ts)
  from attach_db_error_eq [of t h0] Cons.prems obtain h1
    where h1: "attach_db_error t h0 = Inr h1"
      and k1: "fst ` set (db_error_collection h1) = insert t (fst ` set (db_error_collection h0))"
      and d1: "distinct (map fst (db_error_collection h1))"
    by auto
  from Cons.IH [OF d1] obtain h where "run (map attach_db_error ts) h1 = Inr h"
      "fst ` set (db_error_collection h) = fst ` set (db_error_collection h1) \<union> set ts"
      "distinct (map fst (db_error_collection h))" by blast
  with h1 k1 show ?case by (auto simp: ebind_def)
qed

lemma attach_validation_error_eq:
  "attach_validation_error stage_arg param data_dict notice_arg self =
     Inr (self\<lparr>validation_error_collection :=
                 validation_error_collection self
                   @ [ValidationError
                        (if stage_arg = ''protocol'' then Some ''Protocol''
                         else (case data_dict ''protein_target_id'' of None \<Rightarrow> None | Some v \<Rightarrow> v))
                        stage_arg
                        (case data_dict (stage_arg @ ''_id'') of None \<Rightarrow> None | Some v \<Rightarrow> v)
                        param
                        (case data_dict param of None \<Rightarrow> None | Some v \<Rightarrow> v)
                        notice_arg]\<rparr>)"
  by (simp add: attach_validation_error_def ebind_def map_has_key_def map_getitem_def
      split: option.splits)

lemma ensure_stage_eq:
  "\<exists>c. ensure_stage st h = h\<lparr>r_counter := c\<rparr> \<and> has_key c st"
proof (cases "has_key (r_counter h) st")
  case True
  then have "ensure_stage st h = h\<lparr>r_counter := r_counter h\<rparr>" by (simp add: ensure_stage_def)
  with True show ?thesis by blast
next
  case False
  have "has_key (setitem (r_counter h) st []) st"
    using map_of_setitem_same [of "r_counter h" st "[]"]
    by (simp add: has_key_def) (metis map_of_eq_None_iff option.distinct(1) set_map)
  with False show ?thesis by (auto simp: ensure_stage_def)
qed

lemma counter_frame:
  assumes "\<And>rc. \<exists>rc'. f rc = Inr rc'"
  shows "\<exists>c. (let self = ensure_stage st h
              in ebind (getitem (r_counter self) st) (\<lambda>rc.
                 ebind (f rc) (\<lambda>rc. Inr (self\<lparr>r_counter := setitem (r_counter self) st rc\<rparr>))))
            = Inr (h\<lparr>r_counter := c\<rparr>)"
proof -
  from ensure_stage_eq [of st h] obtain c where c: "ensure_stage st h = h\<lparr>r_counter := c\<rparr>"
    and k: "has_key c st" by blast
  from getitem_has_key [OF k] obtain rc where rc: "getitem c st = Inr rc" by blast
  from assms [of rc] obtain rc' where rc': "f rc = Inr rc'" by blast
  show ?thesis
    by (rule exI [of _ "setitem c st rc'"]) (simp add: c rc rc' ebind_def Let_def)
qed

lemma increment_Inr: "\<exists>rc'. increment k rc = Inr rc'"
  using increment_total [of k rc] by blast

lemma increment_updated_frame: "\<exists>c. increment_updated st h = Inr (h\<lparr>r_counter := c\<rparr>)"
  unfolding increment_updated_def by (rule counter_frame) (rule increment_Inr)

lemma increment_inserted_frame: "\<exists>c. increment_inserted st h = Inr (h\<lparr>r_counter := c\<rparr>)"
  unfolding increment_inserted_def by (rule counter_frame) (rule increment_Inr)

lemma set_lab_db_count_frame: "\<exists>c. set_lab_db_count st v h = Inr (h\<lparr>r_counter := c\<rparr>)"
  using counter_frame [of "\<lambda>rc. Inr (setitem rc ''lab_db'' v)" st h]
  by (simp add: set_lab_db_count_def ebind_def)

lemma set_center_db_count_frame: "\<exists>c. set_center_db_count st v h = Inr (h\<lparr>r_counter := c\<rparr>)"
  using counter_frame [of "\<lambda>rc. Inr (setitem rc ''center_db'' v)" st h]
  by (simp add: set_center_db_count_def ebind_def)

lemma iteration_order_single: "iteration_order io \<Longrightarrow> io [a] = [a]"
  unfolding iteration_order_def
  by (metis distinct_singleton mset_single_iff_right mset.simps(1) mset.simps(2) add_mset_eq_single)

lemma mset_two:
  assumes "mset xs = {#a, b#}"
  shows "xs = [a, b] \<or> xs = [b, a]"
proof -
  from assms have "length xs = 2" using mset_eq_length [of xs "[a, b]"] by simp
  then obtain x y where xs: "xs = [x, y]"
    by (metis (no_types, opaque_lifting) One_nat_def Suc_1 length_0_conv length_Suc_conv)
  with assms have "{#x, y#} = {#a, b#}" by simp
  then have "(x = a \<and> y = b) \<or> (x = b \<and> y = a)"
    by (auto simp: add_eq_conv_ex)
  with xs show ?thesis by auto
qed

lemma iteration_order_pair:
  "iteration_order io \<Longrightarrow> a \<noteq> b \<Longrightarrow> io [a, b] = [a, b] \<or> io [a, b] = [b, a]"
  unfolding iteration_order_def using mset_two [of "io [a, b]" a b] by simp

lemma counters_scenario_run:
  "run [increment_inserted ''clone'', increment_inserted ''clone'', set_lab_db_count ''clone'' 231] init
    = Inr (init\<lparr>r_counter := [(''clone'', [(''inserted'', 2), (''lab_db'', 231)])]\<rparr>)"
  by (simp add: increment_inserted_def set_lab_db_count_def ensure_stage_def increment_def
      has_key_def getitem_def ebind_def init_def Let_def)

lemma getitem_keyed_iff:
  "getitem (map (\<lambda>k. (k, g k)) ks) k = Inr v \<longleftrightarrow> k \<in> set ks \<and> v = g k"
proof (cases "k \<in> set ks")
  case True
  then show ?thesis by (auto simp: getitem_keyed)
next
  case False
  then have "map_of (map (\<lambda>k. (k, g k)) ks) k = None"
    by (simp add: map_of_eq_None_iff image_image)
  with False show ?thesis by (simp add: getitem_def)
qed

lemma sort_remdups_cong: "set xs = set ys \<Longrightarrow> sort (remdups xs) = sort (remdups ys)"
  by (simp flip: sorted_list_of_set_sort_remdups)

lemma targets_of_perm: "mset xs = mset ys \<Longrightarrow> targets_of xs = targets_of ys"
  unfolding targets_of_def by (rule sort_remdups_cong) (metis set_map mset_eq_setD)

lemma stages_of_perm: "mset xs = mset ys \<Longrightarrow> stages_of t xs = stages_of t ys"
proof -
  assume "mset xs = mset ys"
  then have "mset (filter (\<lambda>e. target e = t) xs) = mset (filter (\<lambda>e. target e = t) ys)"
    by (simp only: mset_filter)
  then have "set (map stage (filter (\<lambda>e. target e = t) xs))
      = set (map stage (filter (\<lambda>e. target e = t) ys))"
    by (metis set_map mset_eq_setD)
  then show ?thesis unfolding stages_of_def by (rule sort_remdups_cong)
qed

lemma bucket_of_perm: "mset xs = mset ys \<Longrightarrow> mset (bucket_of t s xs) = mset (bucket_of t s ys)"
  by (simp only: bucket_of_def mset_filter)

lemma concat_buckets:
  fixes f :: "'a \<Rightarrow> 'k::linorder"
  shows "concat (map (\<lambda>k. filter (\<lambda>x. f x = k) xs) (sort (remdups (map f xs)))) = sort_key f xs"
  using groupby_concat [of f "sort_key f xs"] by (simp add: groupby_sort_key comp_def)

lemma mset_concat_map_perm:
  "mset xs = mset ys \<Longrightarrow> mset (concat (map g xs)) = mset (concat (map g ys))"
proof -
  assume a: "mset xs = mset ys"
  have "mset (concat (map g zs)) = (\<Sum>z\<in>#mset zs. mset (g z))" for zs
    by (induction zs) simp_all
  with a show ?thesis by simp
qed

lemma concat_concat: "concat (concat xss) = concat (map concat xss)"
  by (induction xss) simp_all

lemma mset_concat_map_cong:
  "(\<And>x. mset (g x) = mset (h x)) \<Longrightarrow> mset (concat (map g xs)) = mset (concat (map h xs))"
  by (induction xs) simp_all

lemma bucket_of_filter:
  "bucket_of t s errs = filter (\<lambda>e. stage e = s) (filter (\<lambda>e. target e = t) errs)"
  by (simp add: bucket_of_def)

lemma stage_buckets_mset:
  assumes "iteration_order io"
  shows "mset (concat (map (\<lambda>s. bucket_of t s errs) (io (stages_of t errs))))
     = mset (filter (\<lambda>e. target e = t) errs)"
proof -
  have "mset (io (stages_of t errs)) = mset (stages_of t errs)"
    using assms stages_of_distinct by (simp add: iteration_order_def)
  then have "mset (concat (map (\<lambda>s. bucket_of t s errs) (io (stages_of t errs))))
     = mset (concat (map (\<lambda>s. bucket_of t s errs) (stages_of t errs)))"
    by (rule mset_concat_map_perm)
  also have "\<dots> = mset (sort_key stage (filter (\<lambda>e. target e = t) errs))"
    by (simp only: bucket_of_filter stages_of_def concat_buckets)
  finally show ?thesis by simp
qed

lemma report_sections_items:
  assumes "iteration_order io"
  shows "mset (concat (map snd (concat (map snd (report_sections io errs))))) = mset errs"
proof -
  have "concat (map snd (concat (map snd (report_sections io errs))))
      = concat (map (\<lambda>t. concat (map (\<lambda>s. bucket_of t s errs) (io (stages_of t errs))))
          (targets_of errs))"
    by (simp add: report_sections_def comp_def map_concat concat_concat)
  also have "mset \<dots>
      = mset (concat (map (\<lambda>t. filter (\<lambda>e. target e = t) errs) (targets_of errs)))"
    by (rule mset_concat_map_cong) (rule stage_buckets_mset [OF assms])
  also have "\<dots> = mset (sort_key target errs)"
    by (simp only: targets_of_def concat_buckets)
  finally show ?thesis by simp
qed

lemma report_sections_headers:
  assumes "iteration_order io"
  shows "distinct (map fst (report_sections io errs))
    \<and> (\<forall>(t, buckets)\<in>set (report_sections io errs). distinct (map fst buckets))"
  using iteration_order_distinct [OF assms stages_of_distinct]
  by (auto simp: report_sections_def comp_def targets_of_distinct)

lemma report_sections_member:
  "\<forall>(t, buckets)\<in>set (report_sections io errs). \<forall>(s, items)\<in>set buckets.
     \<forall>e\<in>set items. target e = t \<and> stage e = s"
  by (auto simp: report_sections_def bucket_of_def)

lemma attach_validation_error_Inr:
  "\<exists>h. attach_validation_error st p dd n self = Inr h
     \<and> length (validation_error_collection h) = Suc (length (validation_error_collection self))"
  by (simp add: attach_validation_error_eq)

lemma run_attach_validation_error:
  "\<exists>h. run (map (\<lambda>(st, p, dd, n). attach_validation_error st p dd n) calls) h0 = Inr h
     \<and> length (validation_error_collection h)
          = length (validation_error_collection h0) + length calls"
proof (induction calls arbitrary: h0)
  case Nil
  then show ?case by simp
next
  case (Cons c calls)
  obtain st p dd n where c: "c = (st, p, dd, n)" by (cases c)
  from attach_validation_error_Inr [of st p dd n h0] obtain h1
    where h1: "attach_validation_error st p dd n h0 = Inr h1"
      and l1: "length (validation_error_collection h1) = Suc (length (validation_error_collection h0))"
    by blast
  from Cons.IH [of h1] obtain h
    where "run (map (\<lambda>(st, p, dd, n). attach_validation_error st p dd n) calls) h1 = Inr h"
      and "length (validation_error_collection h)
          = length (validation_error_collection h1) + length calls" by blast
  with h1 l1 show ?case by (simp add: c ebind_def)
qed

lemma foldl_pair:
  fixes n :: nat
  shows "foldl (\<lambda>(m, n) (a, b). (m @ h a b, n + c a b)) (m, n) xs
     = (m @ concat (map (\<lambda>(a, b). h a b) xs), n + (\<Sum>(a, b)\<leftarrow>xs. c a b))"
  by (induction xs arbitrary: m n) (simp_all add: split_def)

lemma foldl_pair_plain:
  fixes n :: nat
  shows "foldl (\<lambda>(m, n) k. (m @ h k, n + c k)) (m, n) ks
     = (m @ concat (map h ks), n + (\<Sum>k\<leftarrow>ks. c k))"
  by (induction ks arbitrary: m n) simp_all

lemma foldl_getitem_pair:
  assumes "\<And>k. k \<in> set ks \<Longrightarrow> getitem d k = Inr (g k)"
  shows "foldl (\<lambda>acc k. ebind acc (\<lambda>(m, n). ebind (getitem d k) (\<lambda>inner. body m n k inner)))
           acc ks
     = foldl (\<lambda>acc k. ebind acc (\<lambda>(m, n). body m n k (g k))) acc ks"
  using assms
proof (induction ks rule: rev_induct)
  case Nil
  then show ?case by simp
next
  case (snoc k ks)
  then show ?case by (simp add: ebind_def split: sum.splits)
qed

lemma foldl_ebind_Inr:
  "foldl (\<lambda>acc k. ebind acc (\<lambda>(m, n). Inr (f m n k))) (Inr s) ks
     = Inr (foldl (\<lambda>(m, n) k. f m n k) s ks)"
proof (induction ks arbitrary: s)
  case Nil
  then show ?case by simp
next
  case (Cons k ks)
  obtain m n where s: "s = (m, n)" by (cases s)
  from Cons [of "f m n k"] show ?case by (simp add: s ebind_def)
qed

lemma stage_counts_sum:
  assumes "iteration_order io"
  shows "(\<Sum>s\<leftarrow>io (stages_of t errs). length (bucket_of t s errs))
     = length (filter (\<lambda>e. target e = t) errs)"
proof -
  have "(\<Sum>s\<leftarrow>io (stages_of t errs). length (bucket_of t s errs))
      = length (concat (map (\<lambda>s. bucket_of t s errs) (io (stages_of t errs))))"
    by (simp add: length_concat comp_def)
  also have "\<dots> = size (mset (concat (map (\<lambda>s. bucket_of t s errs) (io (stages_of t errs)))))"
    by simp
  also have "\<dots> = length (filter (\<lambda>e. target e = t) errs)"
    by (simp only: stage_buckets_mset [OF assms] size_mset)
  finally show ?thesis .
qed

lemma target_counts_sum:
  "(\<Sum>t\<leftarrow>targets_of errs. length (filter (\<lambda>e. target e = t) errs)) = length errs"
proof -
  have "(\<Sum>t\<leftarrow>targets_of errs. length (filter (\<lambda>e. target e = t) errs))
      = length (concat (map (\<lambda>t. filter (\<lambda>e. target e = t) errs) (targets_of errs)))"
    by (simp add: length_concat comp_def)
  also have "\<dots> = length (sort_key target errs)"
    by (simp only: targets_of_def concat_buckets)
  finally show ?thesis by simp
qed

lemma get_error_count_msg_eq:
  assumes io: "iteration_order io"
  shows "get_error_count_msg io errs =
     Inr (str_nat (length errs) @ '' error(s) occured during this run.\<newline> ''
       @ concat (map (\<lambda>t.
           ''Target: '' @ py_str t @ [TAB] @ ''(''
             @ str_nat (length (filter (\<lambda>e. target e = t) errs)) @ '' error(s))\<newline>''
             @ concat (map (\<lambda>s. [TAB] @ str_nat (length (bucket_of t s errs)) @ '' in ''
                                  @ s @ ''\<newline>'')
                 (io (stages_of t errs))))
         (targets_of errs)))"
proof -
  let ?inner = "\<lambda>t. map (\<lambda>s. (s, bucket_of t s errs)) (stages_of t errs)"
  let ?D = "map (\<lambda>t. (t, ?inner t)) (targets_of errs)"
  let ?body = "\<lambda>message grand_total k inner.
        (let (detailed_message, total) =
               foldl (\<lambda>(detailed_message, total) (stage, items).
                        (detailed_message @ [TAB] @ str_nat (length items) @ '' in ''
                           @ stage @ ''\<newline>'',
                         total + length items))
                 ('''', 0) (dict_items io inner)
         in Inr (message @ ''Target: '' @ py_str k @ [TAB] @ ''('' @ str_nat total
                   @ '' error(s))\<newline>'' @ detailed_message,
                 grand_total + total))"
  let ?lines = "\<lambda>k. concat (map (\<lambda>s. [TAB] @ str_nat (length (bucket_of k s errs)) @ '' in ''
                                  @ s @ ''\<newline>'') (io (stages_of k errs)))"
  let ?section = "\<lambda>k. ''Target: '' @ py_str k @ [TAB] @ ''(''
             @ str_nat (length (filter (\<lambda>e. target e = k) errs)) @ '' error(s))\<newline>''
             @ ?lines k"
  have keys: "sort (map fst ?D) = targets_of errs"
    by (simp add: comp_def targets_of_sorted)
  have get: "\<And>k. k \<in> set (targets_of errs) \<Longrightarrow> getitem ?D k = Inr (?inner k)"
    by (rule getitem_keyed)
  have body: "?body m n k (?inner k)
      = Inr (m @ ?section k, n + length (filter (\<lambda>e. target e = k) errs))" for m n k
  proof -
    have "foldl (\<lambda>(detailed_message, total) (stage, items).
                        (detailed_message @ [TAB] @ str_nat (length items) @ '' in ''
                           @ stage @ ''\<newline>'',
                         total + length items))
                 ('''', 0) (dict_items io (?inner k))
        = (?lines k, length (filter (\<lambda>e. target e = k) errs))"
      by (simp only: foldl_pair dict_items_keyed [OF io stages_of_distinct])
        (simp add: comp_def stage_counts_sum [OF io])
    then show ?thesis by (simp only: Let_def split_conv append_assoc)
  qed
  have "get_error_count_msg io errs
      = ebind (foldl (\<lambda>acc k. ebind acc (\<lambda>(m, n). ebind (getitem ?D k) (\<lambda>inner. ?body m n k inner)))
                 (Inr ('''', 0)) (targets_of errs))
          (\<lambda>(message, grand_total).
              Inr (str_nat grand_total @ '' error(s) occured during this run.\<newline> '' @ message))"
    by (simp only: get_error_count_msg_def Let_def group_errors_t_s_eq keys)
  also have "foldl (\<lambda>acc k. ebind acc (\<lambda>(m, n). ebind (getitem ?D k) (\<lambda>inner. ?body m n k inner)))
                 (Inr ('''', 0)) (targets_of errs)
      = foldl (\<lambda>acc k. ebind acc (\<lambda>(m, n). ?body m n k (?inner k))) (Inr ('''', 0)) (targets_of errs)"
    by (rule foldl_getitem_pair [OF get])
  also have "\<dots> = Inr (foldl (\<lambda>(m, n) k. (m @ ?section k, n + length (filter (\<lambda>e. target e = k) errs)))
                       ('''', 0) (targets_of errs))"
    by (simp only: body foldl_ebind_Inr)
  also have "\<dots> = Inr (concat (map ?section (targets_of errs)), length errs)"
    by (simp only: foldl_pair_plain target_counts_sum) simp
  finally show ?thesis by (simp add: ebind_def)
qed

lemma iteration_order_id: "iteration_order (\<lambda>ks. ks)"
  by (simp add: iteration_order_def)

lemma iteration_order_rev: "iteration_order rev"
  by (simp add: iteration_order_def)

section \<open>Ingestion\<close>

text \<open>
  C2 (as stated): the target of the appended record prefers the explicit target field
  \<open>protein_target_id\<close> of the data dictionary and falls back to \<open>'Protocol'\<close> only when
  the stage is \<open>'protocol'\<close>. The source tests the stage after it has read the field, so
  for stage \<open>'protocol'\<close> the literal replaces a target field that is present: the call
  below stores target \<open>'Protocol'\<close>, not \<open>'490006'\<close>.
\<close>

theorem protocol_stage_replaces_target_field:
  "attach_validation_error ''protocol'' ''protocol_id''
     [''protein_target_id'' \<mapsto> Some ''490006''] None init
   = Inr (init\<lparr>validation_error_collection :=
            [ValidationError (Some ''Protocol'') ''protocol'' None ''protocol_id'' None None]\<rparr>)
   \<and> attach_validation_error ''protocol'' ''protocol_id''
     [''protein_target_id'' \<mapsto> Some ''490006''] None init
   \<noteq> Inr (init\<lparr>validation_error_collection :=
            [ValidationError (Some ''490006'') ''protocol'' None ''protocol_id'' None None]\<rparr>)"
  by (simp add: attach_validation_error_eq init_def)

text \<open>
  C2 (amended): every call of \<open>attach_validation_error\<close> returns and appends one record.
  Its target is \<open>'Protocol'\<close> whenever the stage is \<open>'protocol'\<close>, otherwise the value of
  \<open>protein_target_id\<close> if the data dictionary has that key, otherwise \<open>None\<close>; its suffix
  is the value under \<open>stage + '_id'\<close> if present, else \<open>None\<close>; its value is the value under
  the parameter if present, else \<open>None\<close>; stage, parameter and notice are the arguments.
\<close>

theorem attach_validation_error_record:
  "\<exists>h. attach_validation_error stage_arg param data_dict notice_arg self = Inr h
    \<and> validation_error_collection h
        = validation_error_collection self
            @ [ValidationError
                 (if stage_arg = ''protocol'' then Some ''Protocol''
                  else (case data_dict ''protein_target_id'' of None \<Rightarrow> None | Some v \<Rightarrow> v))
                 stage_arg
                 (case data_dict (stage_arg @ ''_id'') of None \<Rightarrow> None | Some v \<Rightarrow> v)
                 param
                 (case data_dict param of None \<Rightarrow> None | Some v \<Rightarrow> v)
                 notice_arg]"
  by (simp add: attach_validation_error_eq)

text \<open>
  The scenario of C2: stage \<open>'clone'\<close>, parameter \<open>'protocol_id'\<close>, a data dictionary with
  \<open>protocol_id\<close> and \<open>protein_target_id\<close> and no \<open>clone_id\<close>.
\<close>

theorem attach_validation_error_record_witness:
  "\<exists>h. attach_validation_error ''clone'' ''protocol_id''
     [''protocol_id'' \<mapsto> Some ''uva_cloning_1'', ''protein_target_id'' \<mapsto> Some ''490006'']
     (Some ''Protocol is gone'') init = Inr h
    \<and> validation_error_collection h
        = [ValidationError (Some ''490006'') ''clone'' None ''protocol_id''
             (Some ''uva_cloning_1'') (Some ''Protocol is gone'')]"
  using attach_validation_error_record [of "''clone''" "''protocol_id''"
      "[''protocol_id'' \<mapsto> Some ''uva_cloning_1'', ''protein_target_id'' \<mapsto> Some ''490006'']"
      "Some ''Protocol is gone''" init]
  by (simp add: init_def)

text \<open>
  C6: the three ingestion methods return for every input and never raise. For
  \<open>attach_validation_error\<close> and a data dictionary that has none of the keys it probes,
  the appended record has target, suffix and value \<open>None\<close>. (Stage and parameter are
  strings and the data dictionary is a mapping from strings.)
\<close>

theorem ingestion_never_raises:
  "(\<exists>h. attach_validation_error stage_arg param data_dict notice_arg self = Inr h
       \<and> (stage_arg \<noteq> ''protocol'' \<and> data_dict ''protein_target_id'' = None
            \<and> data_dict (stage_arg @ ''_id'') = None \<and> data_dict param = None
          \<longrightarrow> validation_error_collection h
                = validation_error_collection self
                    @ [ValidationError None stage_arg None param None notice_arg]))
   \<and> (\<exists>h. attach_consistency_error target_arg stage_arg id_arg self = Inr h)
   \<and> (\<exists>h. attach_db_error msg self = Inr h)"
  using attach_db_error_eq [of msg self]
  by (auto simp: attach_validation_error_eq attach_consistency_error_def)

theorem ingestion_never_raises_witness:
  "\<exists>h. attach_validation_error ''clone'' ''protocol_id'' Map.empty None init = Inr h
     \<and> validation_error_collection h
         = [ValidationError None ''clone'' None ''protocol_id'' None None]"
  using ingestion_never_raises [of "''clone''" "''protocol_id''" Map.empty None init]
  by (simp add: init_def)

text \<open>
  C10: each ingestion method changes its own collection only. \<open>attach_validation_error\<close>
  leaves the database errors, the consistency errors, the counters and the log as they
  were; \<open>attach_consistency_error\<close> leaves the validation errors, the database errors, the
  counters and the log; \<open>attach_db_error\<close> leaves both error collections and the counters
  and appends its text to the log; the four counter methods leave the three error
  collections and the log.
\<close>

theorem ingestion_frame:
  "(\<exists>h. attach_validation_error stage_arg param data_dict notice_arg self = Inr h
       \<and> db_error_collection h = db_error_collection self
       \<and> consistency_error_collection h = consistency_error_collection self
       \<and> r_counter h = r_counter self \<and> logger h = logger self)
   \<and> (\<exists>h. attach_consistency_error target_arg stage_arg id_arg self = Inr h
       \<and> validation_error_collection h = validation_error_collection self
       \<and> db_error_collection h = db_error_collection self
       \<and> r_counter h = r_counter self \<and> logger h = logger self)
   \<and> (\<exists>h. attach_db_error msg self = Inr h
       \<and> validation_error_collection h = validation_error_collection self
       \<and> consistency_error_collection h = consistency_error_collection self
       \<and> r_counter h = r_counter self \<and> logger h = logger self @ [msg])
   \<and> (\<exists>h. increment_inserted stage_arg self = Inr h
       \<and> validation_error_collection h = validation_error_collection self
       \<and> consistency_error_collection h = consistency_error_collection self
       \<and> db_error_collection h = db_error_collection self \<and> logger h = logger self)
   \<and> (\<exists>h. increment_updated stage_arg self = Inr h
       \<and> validation_error_collection h = validation_error_collection self
       \<and> consistency_error_collection h = consistency_error_collection self
       \<and> db_error_collection h = db_error_collection self \<and> logger h = logger self)
   \<and> (\<exists>h. set_lab_db_count stage_arg n self = Inr h
       \<and> validation_error_collection h = validation_error_collection self
       \<and> consistency_error_collection h = consistency_error_collection self
       \<and> db_error_collection h = db_error_collection self \<and> logger h = logger self)
   \<and> (\<exists>h. set_center_db_count stage_arg n self = Inr h
       \<and> validation_error_collection h = validation_error_collection self
       \<and> consistency_error_collection h = consistency_error_collection self
       \<and> db_error_collection h = db_error_collection self \<and> logger h = logger self)"
proof -
  have a: "\<exists>h. attach_db_error msg self = Inr h
       \<and> validation_error_collection h = validation_error_collection self
       \<and> consistency_error_collection h = consistency_error_collection self
       \<and> r_counter h = r_counter self \<and> logger h = logger self @ [msg]"
    using attach_db_error_eq [of msg self] by auto
  have b: "\<exists>h. f self = Inr h
          \<and> validation_error_collection h = validation_error_collection self
          \<and> consistency_error_collection h = consistency_error_collection self
          \<and> db_error_collection h = db_error_collection self \<and> logger h = logger self"
    if "\<exists>c. f self = Inr (self\<lparr>r_counter := c\<rparr>)" for f
    using that by auto
  show ?thesis
    using a b [of "increment_inserted stage_arg", OF increment_inserted_frame]
      b [of "increment_updated stage_arg", OF increment_updated_frame]
      b [of "set_lab_db_count stage_arg n", OF set_lab_db_count_frame]
      b [of "set_center_db_count stage_arg n", OF set_center_db_count_frame]
    by (simp add: attach_validation_error_eq attach_consistency_error_def)
qed

section \<open>Rendering of a record\<close>

text \<open>
  C9: a validation error whose value, suffix or notice is \<open>None\<close> is rendered with the
  text \<open>None\<close> in the place of the field: with all three absent, and with each of them
  absent while the other two are arbitrary.
\<close>

theorem str_renders_absent_as_None:
  "str (ValidationError t st None p None None)
     = ''Error: None, Value of '' @ p @ '' = 'None' for '' @ st @ ''_id = 'None'\<newline>''
   \<and> str (ValidationError t st su p None n)
     = ''Error: '' @ py_str n @ '', Value of '' @ p @ '' = 'None' for '' @ st @ ''_id = ''
         @ [SQ] @ py_str su @ [SQ] @ ''\<newline>''
   \<and> str (ValidationError t st None p v n)
     = ''Error: '' @ py_str n @ '', Value of '' @ p @ '' = '' @ [SQ] @ py_str v @ [SQ]
         @ '' for '' @ st @ ''_id = 'None'\<newline>''
   \<and> str (ValidationError t st su p v None)
     = ''Error: None, Value of '' @ p @ '' = '' @ [SQ] @ py_str v @ [SQ]
         @ '' for '' @ st @ ''_id = '' @ [SQ] @ py_str su @ [SQ] @ ''\<newline>''"
  by simp

section \<open>Database errors\<close>

text \<open>
  C5: after any sequence of \<open>attach_db_error\<close> calls on a new handler, the count summary
  of the database errors gives the number of distinct texts that were recorded, however
  often each was recorded. (The sentence of the source is spelled
  \<open>error(s) occured during run.\<close> and ends with a newline.)
\<close>

theorem db_error_count_is_distinct_signatures:
  "\<exists>h. run (map attach_db_error texts) init = Inr h
     \<and> get_database_errors_statistics_msg h
         = str_nat (card (set texts)) @ '' error(s) occured during run.\<newline>''"
proof -
  have "distinct (map fst (db_error_collection init))" by (simp add: init_def)
  from run_attach_db_error [OF this, of texts] obtain h
    where h: "run (map attach_db_error texts) init = Inr h"
      and k: "fst ` set (db_error_collection h) = set texts"
      and d: "distinct (map fst (db_error_collection h))"
    by (auto simp: init_def)
  have "length (db_error_collection h) = card (set texts)"
    using distinct_card [OF d] k by simp
  with h show ?thesis
    by (simp add: get_database_errors_statistics_msg_def db_get_error_count_msg_def)
qed

text \<open>Recording \<open>"X"\<close> five times: the summary counts one error.\<close>

theorem db_error_count_is_distinct_signatures_witness:
  "\<exists>h. run (map attach_db_error [''X'', ''X'', ''X'', ''X'', ''X'']) init = Inr h
     \<and> get_database_errors_statistics_msg h = ''1 error(s) occured during run.\<newline>''"
  using db_error_count_is_distinct_signatures [of "[''X'', ''X'', ''X'', ''X'', ''X'']"]
  by (simp add: str_nat.simps)

section \<open>Grouping and the full report\<close>

text \<open>
  C1: after any sequence of \<open>attach_validation_error\<close> calls on a new handler, every call
  has appended one record, and the full validation report is the text of a list of
  sections, one per target, each with its stage buckets, such that: the records listed
  in all buckets together are exactly the appended records, each as often as it was
  appended; no target has two sections and no stage has two buckets under one target;
  and every record listed in the bucket of stage \<open>s\<close> under target \<open>t\<close> has target \<open>t\<close>
  and stage \<open>s\<close>. \<open>render_report\<close> writes the line of every listed record once, after
  the header lines of its target and its stage.
\<close>

theorem full_report_covers_every_record:
  assumes "iteration_order io"
  shows "\<exists>h. run (map (\<lambda>(st, p, dd, n). attach_validation_error st p dd n) calls) init = Inr h
     \<and> length (validation_error_collection h) = length calls
     \<and> get_validation_error_msg io h
          = Inr (render_report (report_sections io (validation_error_collection h)))
     \<and> mset (concat (map snd (concat (map snd
          (report_sections io (validation_error_collection h))))))
          = mset (validation_error_collection h)
     \<and> distinct (map fst (report_sections io (validation_error_collection h)))
     \<and> (\<forall>(t, buckets)\<in>set (report_sections io (validation_error_collection h)).
           distinct (map fst buckets)
           \<and> (\<forall>(s, items)\<in>set buckets. \<forall>e\<in>set items. target e = t \<and> stage e = s))"
proof -
  from run_attach_validation_error [of calls init] obtain h
    where h: "run (map (\<lambda>(st, p, dd, n). attach_validation_error st p dd n) calls) init = Inr h"
      and l: "length (validation_error_collection h) = length calls"
    by (auto simp: init_def)
  let ?errs = "validation_error_collection h"
  have "get_validation_error_msg io h = Inr (render_report (report_sections io ?errs))"
    by (simp only: get_validation_error_msg_def get_error_msg_eq [OF assms])
  moreover note report_sections_items [OF assms, of ?errs]
  moreover have "distinct (map fst (report_sections io ?errs))"
    using report_sections_headers [OF assms, of ?errs] by blast
  moreover have "\<forall>(t, buckets)\<in>set (report_sections io ?errs).
           distinct (map fst buckets)
           \<and> (\<forall>(s, items)\<in>set buckets. \<forall>e\<in>set items. target e = t \<and> stage e = s)"
    using report_sections_headers [OF assms, of ?errs] report_sections_member [of io ?errs]
    by fast
  ultimately show ?thesis using h l by blast
qed

theorem full_report_covers_every_record_witness:
  "iteration_order (\<lambda>ks :: string list. ks)
   \<and> (\<exists>h. run (map (\<lambda>(st, p, dd, n). attach_validation_error st p dd n)
              [(''clone'', ''protocol_id'',
                [''protocol_id'' \<mapsto> Some ''uva_cloning_1'', ''protein_target_id'' \<mapsto> Some ''490006''],
                Some ''Protocol is gone''),
               (''expression'', ''protocol_id'',
                [''protocol_id'' \<mapsto> Some ''uva_cloning_12'', ''protein_target_id'' \<mapsto> Some ''490007'',
                 ''expression_id'' \<mapsto> Some ''V13''],
                Some ''Protocol is missing'')]) init = Inr h
     \<and> get_validation_error_msg (\<lambda>ks. ks) h
          = Inr (render_report (report_sections (\<lambda>ks. ks) (validation_error_collection h)))
     \<and> mset (concat (map snd (concat (map snd
          (report_sections (\<lambda>ks. ks) (validation_error_collection h))))))
          = mset (validation_error_collection h))"
proof -
  have io: "iteration_order (\<lambda>ks :: string list. ks)" by (rule iteration_order_id)
  from full_report_covers_every_record [OF io] show ?thesis using io by blast
qed

text \<open>
  C7: grouping does not depend on the order of ingestion. For two collections with the
  same records in any order, the grouped dictionaries have the same targets, and every
  bucket of the one has a bucket under the same target and stage in the other, with the
  same stages under that target and the same records in the bucket, as multisets.
\<close>

theorem grouping_order_independent:
  assumes "mset xs = mset ys"
  shows "map fst (group_errors_t_s xs) = map fst (group_errors_t_s ys)
    \<and> (\<forall>t ix. getitem (group_errors_t_s xs) t = Inr ix \<longrightarrow>
         (\<exists>iy. getitem (group_errors_t_s ys) t = Inr iy
            \<and> map fst ix = map fst iy
            \<and> (\<forall>s ex. getitem ix s = Inr ex \<longrightarrow>
                 (\<exists>ey. getitem iy s = Inr ey \<and> mset ex = mset ey))))"
proof (intro conjI allI impI)
  show "map fst (group_errors_t_s xs) = map fst (group_errors_t_s ys)"
    by (simp add: group_errors_t_s_eq comp_def targets_of_perm [OF assms])
next
  fix t ix
  let ?iy = "map (\<lambda>s. (s, bucket_of t s ys)) (stages_of t ys)"
  assume "getitem (group_errors_t_s xs) t = Inr ix"
  then have t: "t \<in> set (targets_of xs)"
    and ix: "ix = map (\<lambda>s. (s, bucket_of t s xs)) (stages_of t xs)"
    by (simp_all only: group_errors_t_s_eq getitem_keyed_iff)
  from t have "getitem (group_errors_t_s ys) t = Inr ?iy"
    by (simp only: group_errors_t_s_eq getitem_keyed_iff targets_of_perm [OF assms, symmetric])
  moreover have "map fst ix = map fst ?iy"
    by (simp add: ix comp_def stages_of_perm [OF assms])
  moreover have "\<forall>s ex. getitem ix s = Inr ex \<longrightarrow>
                 (\<exists>ey. getitem ?iy s = Inr ey \<and> mset ex = mset ey)"
  proof (intro allI impI)
    fix s ex
    assume "getitem ix s = Inr ex"
    then have "s \<in> set (stages_of t xs)" and "ex = bucket_of t s xs"
      by (simp_all only: ix getitem_keyed_iff)
    then have "getitem ?iy s = Inr (bucket_of t s ys) \<and> mset ex = mset (bucket_of t s ys)"
      by (simp only: getitem_keyed_iff stages_of_perm [OF assms, symmetric]
          bucket_of_perm [OF assms])
    then show "\<exists>ey. getitem ?iy s = Inr ey \<and> mset ex = mset ey" by blast
  qed
  ultimately show "\<exists>iy. getitem (group_errors_t_s ys) t = Inr iy
            \<and> map fst ix = map fst iy
            \<and> (\<forall>s ex. getitem ix s = Inr ex \<longrightarrow>
                 (\<exists>ey. getitem iy s = Inr ey \<and> mset ex = mset ey))" by blast
qed

theorem grouping_order_independent_witness:
  "mset [ConsistencyError (Some ''490006'') ''clone'' (Some ''V29''),
         ConsistencyError (Some ''490006'') ''clone'' (Some ''V30'')]
     = mset [ConsistencyError (Some ''490006'') ''clone'' (Some ''V30''),
             ConsistencyError (Some ''490006'') ''clone'' (Some ''V29'')]
   \<and> map fst (group_errors_t_s
          [ConsistencyError (Some ''490006'') ''clone'' (Some ''V29''),
           ConsistencyError (Some ''490006'') ''clone'' (Some ''V30'')])
     = map fst (group_errors_t_s
          [ConsistencyError (Some ''490006'') ''clone'' (Some ''V30''),
           ConsistencyError (Some ''490006'') ''clone'' (Some ''V29'')])"
proof -
  have p: "mset [ConsistencyError (Some ''490006'') ''clone'' (Some ''V29''),
         ConsistencyError (Some ''490006'') ''clone'' (Some ''V30'')]
     = mset [ConsistencyError (Some ''490006'') ''clone'' (Some ''V30''),
             ConsistencyError (Some ''490006'') ''clone'' (Some ''V29'')]"
    by simp
  from grouping_order_independent [OF p] p show ?thesis by blast
qed

text \<open>
  C4 (as stated): under each target the full report emits the stage buckets in ascending
  stage order. The source sorts the targets but walks the inner dictionary with
  \<open>items()\<close>, in the dictionary's own order. With an iteration order that returns two keys
  in the reverse of their storing order, the bucket of stage \<open>protocol\<close> is emitted before
  the bucket of stage \<open>expression\<close>. (CPython 2.7 iterates a dictionary with these two
  string keys in this order.)
\<close>

theorem stage_buckets_not_in_ascending_order:
  "iteration_order (rev :: string list \<Rightarrow> string list)
   \<and> get_error_msg rev
     [ConsistencyError (Some ''490006'') ''expression'' (Some ''V13''),
      ConsistencyError (Some ''490006'') ''protocol'' (Some ''P1'')]
   = Inr (''Target: 490006\<newline>''
       @ [TAB] @ ''Stage: protocol'' @ [TAB] @ ''(1 error(s)).\<newline>''
       @ [TAB, TAB] @ ''Missing suffix: P1\<newline>''
       @ [TAB] @ ''Stage: expression'' @ [TAB] @ ''(1 error(s)).\<newline>''
       @ [TAB, TAB] @ ''Missing suffix: V13\<newline>'')"
  by (simp add: iteration_order_rev get_error_msg_eq [OF iteration_order_rev] render_report_def
      report_sections_def targets_of_def stages_of_def bucket_of_def str_nat.simps)

text \<open>
  C4 (amended): the grouped dictionary has its targets in strictly ascending order,
  \<open>None\<close> first, and under every target its stages in strictly ascending order, in the
  order in which the keys were stored. The full report emits the targets in that
  ascending order, and under each target the stage buckets in the iteration order of the
  inner dictionary, which lists every stage of the target once and need not be
  ascending. The grouping and the report are functions of the collection and of the
  iteration order, so equal inputs give equal results.
\<close>

theorem grouping_and_report_order:
  assumes "iteration_order io"
  shows "sorted_wrt (<) (map fst (group_errors_t_s errs))
    \<and> (\<forall>(t, inner)\<in>set (group_errors_t_s errs). sorted_wrt (<) (map fst inner))
    \<and> get_error_msg io errs
        = Inr (render_report
                (map (\<lambda>(t, inner). (t, dict_items io inner)) (group_errors_t_s errs)))
    \<and> (\<forall>(t, inner)\<in>set (group_errors_t_s errs).
          map fst (dict_items io inner) = io (map fst inner)
          \<and> mset (io (map fst inner)) = mset (map fst inner))"
proof -
  have st: "sorted_wrt (<) (stages_of t errs)" for t
    by (simp add: stages_of_def strict_sorted_iff)
  have tg: "sorted_wrt (<) (targets_of errs)"
    by (simp add: targets_of_def strict_sorted_iff)
  have perm: "mset (io (stages_of t errs)) = mset (stages_of t errs)" for t
    using assms stages_of_distinct by (simp add: iteration_order_def)
  have secs: "map (\<lambda>(t, inner). (t, dict_items io inner)) (group_errors_t_s errs)
      = report_sections io errs"
    by (simp add: group_errors_t_s_eq report_sections_def comp_def
        dict_items_keyed [OF assms stages_of_distinct])
  have keys: "map fst (map (\<lambda>s. (s, bucket_of t s errs)) ks) = ks" for t ks
    by (simp add: comp_def)
  have inner: "\<forall>(t, inner)\<in>set (group_errors_t_s errs).
      sorted_wrt (<) (map fst inner)
      \<and> map fst (dict_items io inner) = io (map fst inner)
      \<and> mset (io (map fst inner)) = mset (map fst inner)"
    unfolding group_errors_t_s_eq
    by (auto simp only: set_map keys st perm dict_items_keyed [OF assms stages_of_distinct])
  have "sorted_wrt (<) (map fst (group_errors_t_s errs))"
    by (simp add: group_errors_t_s_eq comp_def tg)
  with inner secs get_error_msg_eq [OF assms, of errs] show ?thesis by auto
qed

theorem grouping_and_report_order_witness:
  "iteration_order (rev :: string list \<Rightarrow> string list)
   \<and> sorted_wrt (<) (map fst (group_errors_t_s
        [ConsistencyError (Some ''490006'') ''expression'' (Some ''V13''),
         ConsistencyError None ''clone'' (Some ''V29'')]))
   \<and> get_error_msg rev
        [ConsistencyError (Some ''490006'') ''expression'' (Some ''V13''),
         ConsistencyError None ''clone'' (Some ''V29'')]
        = Inr (render_report
                (map (\<lambda>(t, inner). (t, dict_items rev inner))
                  (group_errors_t_s
                    [ConsistencyError (Some ''490006'') ''expression'' (Some ''V13''),
                     ConsistencyError None ''clone'' (Some ''V29'')])))"
proof -
  have io: "iteration_order (rev :: string list \<Rightarrow> string list)" by (rule iteration_order_rev)
  from grouping_and_report_order [OF io] show ?thesis using io by blast
qed

section \<open>The count by target\<close>

text \<open>
  C3 (as stated): the count by target ends with the grand total, after all sections of
  the targets. The source returns the line of the grand total first and the sections
  after it: for one record the text begins with \<open>1 error(s) occured during this run.\<close>
  and ends with the stage line of the only target.
\<close>

theorem count_msg_total_line_comes_first:
  "get_error_count_msg (\<lambda>ks. ks)
     [ValidationError (Some ''490006'') ''clone'' None ''protocol_id''
        (Some ''uva_cloning_1'') (Some ''Protocol is gone'')]
   = Inr (''1 error(s) occured during this run.\<newline> Target: 490006'' @ [TAB]
           @ ''(1 error(s))\<newline>'' @ [TAB] @ ''1 in clone\<newline>'')
   \<and> get_error_count_msg (\<lambda>ks. ks)
     [ValidationError (Some ''490006'') ''clone'' None ''protocol_id''
        (Some ''uva_cloning_1'') (Some ''Protocol is gone'')]
   \<noteq> Inr (''Target: 490006'' @ [TAB] @ ''(1 error(s))\<newline>'' @ [TAB] @ ''1 in clone\<newline>''
           @ ''1 error(s) occured during this run.\<newline>'')"
  by (simp add: get_error_count_msg_eq [OF iteration_order_id] targets_of_def stages_of_def
      bucket_of_def str_nat.simps)

text \<open>
  C3 (amended): the count by target is the line of the grand total, the number of all
  records of the collection, followed by one section per target in ascending order:
  the name of the target with the number of its records over all its stages, then one
  line \<open>{count} in {stage}\<close> for each stage of the target, in the iteration order of the
  inner dictionary.
\<close>

theorem count_msg_layout:
  assumes "iteration_order io"
  shows "get_error_count_msg io errs =
     Inr (str_nat (length errs) @ '' error(s) occured during this run.\<newline> ''
       @ concat (map (\<lambda>t.
           ''Target: '' @ py_str t @ [TAB] @ ''(''
             @ str_nat (length (filter (\<lambda>e. target e = t) errs)) @ '' error(s))\<newline>''
             @ concat (map (\<lambda>s. [TAB] @ str_nat (length (bucket_of t s errs)) @ '' in ''
                                  @ s @ ''\<newline>'')
                 (io (stages_of t errs))))
         (targets_of errs)))"
  using assms by (rule get_error_count_msg_eq)

theorem count_msg_layout_witness:
  "iteration_order (\<lambda>ks :: string list. ks)
   \<and> get_error_count_msg (\<lambda>ks. ks)
       [ConsistencyError (Some ''490007'') ''expression'' (Some ''V13''),
        ConsistencyError (Some ''490006'') ''clone'' (Some ''V29''),
        ConsistencyError (Some ''490007'') ''clone'' (Some ''V30'')]
     = Inr (''3 error(s) occured during this run.\<newline> ''
         @ ''Target: 490006'' @ [TAB] @ ''(1 error(s))\<newline>''
         @ [TAB] @ ''1 in clone\<newline>''
         @ ''Target: 490007'' @ [TAB] @ ''(2 error(s))\<newline>''
         @ [TAB] @ ''1 in clone\<newline>''
         @ [TAB] @ ''1 in expression\<newline>'')"
  using count_msg_layout [OF iteration_order_id,
      of "[ConsistencyError (Some ''490007'') ''expression'' (Some ''V13''),
           ConsistencyError (Some ''490006'') ''clone'' (Some ''V29''),
           ConsistencyError (Some ''490007'') ''clone'' (Some ''V30'')]"]
  by (simp add: iteration_order_id targets_of_def stages_of_def bucket_of_def str_nat.simps)

section \<open>The record counters\<close>

text \<open>
  C8: on a new handler, \<open>increment_inserted('clone')\<close> twice and then
  \<open>set_lab_db_count('clone', 231)\<close> leave one counter under stage \<open>clone\<close>, with
  \<open>inserted\<close> equal to 2, \<open>lab_db\<close> equal to 231 and no \<open>updated\<close> entry, and the counters
  report is the line of the stage followed by the lines of these two entries, in the
  order the dictionary iterates them.
\<close>

theorem counters_scenario:
  assumes "iteration_order io"
  shows "\<exists>h rc. run [increment_inserted ''clone'', increment_inserted ''clone'',
                    set_lab_db_count ''clone'' 231] init = Inr h
     \<and> getitem (r_counter h) ''clone'' = Inr rc
     \<and> getitem rc ''inserted'' = Inr 2 \<and> getitem rc ''lab_db'' = Inr 231
     \<and> \<not> has_key rc ''updated''
     \<and> (get_count_values_msg io h
           = ''clone:\<newline>'' @ [TAB] @ ''inserted records: 2\<newline>''
               @ [TAB] @ ''lab_db records: 231\<newline>''
         \<or> get_count_values_msg io h
           = ''clone:\<newline>'' @ [TAB] @ ''lab_db records: 231\<newline>''
               @ [TAB] @ ''inserted records: 2\<newline>'')"
proof -
  let ?rc = "[(''inserted'', 2::int), (''lab_db'', 231)]"
  let ?h = "init\<lparr>r_counter := [(''clone'', ?rc)]\<rparr>"
  have outer: "io [''clone''] = [''clone'']" by (rule iteration_order_single [OF assms])
  have inner: "io [''inserted'', ''lab_db''] = [''inserted'', ''lab_db'']
      \<or> io [''inserted'', ''lab_db''] = [''lab_db'', ''inserted'']"
    by (rule iteration_order_pair [OF assms]) simp
  have msg: "get_count_values_msg io ?h
           = ''clone:\<newline>'' @ [TAB] @ ''inserted records: 2\<newline>''
               @ [TAB] @ ''lab_db records: 231\<newline>''
         \<or> get_count_values_msg io ?h
           = ''clone:\<newline>'' @ [TAB] @ ''lab_db records: 231\<newline>''
               @ [TAB] @ ''inserted records: 2\<newline>''"
    using inner
    by (auto simp: get_count_values_msg_def dict_items_def outer map_filter_simps
        str_int_def str_nat.simps)
  have "getitem (r_counter ?h) ''clone'' = Inr ?rc" by (simp add: getitem_def)
  moreover have "getitem ?rc ''inserted'' = Inr 2" "getitem ?rc ''lab_db'' = Inr 231"
      "\<not> has_key ?rc ''updated''"
    by (simp_all add: getitem_def has_key_def)
  ultimately show ?thesis using counters_scenario_run msg by blast
qed

theorem counters_scenario_witness:
  "iteration_order (\<lambda>ks :: string list. ks)
   \<and> (\<exists>h rc. run [increment_inserted ''clone'', increment_inserted ''clone'',
                    set_lab_db_count ''clone'' 231] init = Inr h
     \<and> getitem (r_counter h) ''clone'' = Inr rc
     \<and> getitem rc ''inserted'' = Inr 2 \<and> getitem rc ''lab_db'' = Inr 231
     \<and> \<not> has_key rc ''updated''
     \<and> (get_count_values_msg (\<lambda>ks. ks) h
           = ''clone:\<newline>'' @ [TAB] @ ''inserted records: 2\<newline>''
               @ [TAB] @ ''lab_db records: 231\<newline>''
         \<or> get_count_values_msg (\<lambda>ks. ks) h
           = ''clone:\<newline>'' @ [TAB] @ ''lab_db records: 231\<newline>''
               @ [TAB] @ ''inserted records: 2\<newline>''))"
proof -
  have io: "iteration_order (\<lambda>ks :: string list. ks)" by (simp add: iteration_order_def)
  from io counters_scenario [OF io] show ?thesis by (rule conjI)
qed

end
